theory Spec2Isabelle
  imports Main "HOL-Library.Sublist"
begin

section \<open>Text primitives of the two scripts\<close>

text \<open>
  Both scripts (\<^verbatim>\<open>optimize_truckbay.py\<close> and \<^verbatim>\<open>split_ambient_details.py\<close>) work on
  Python \<^verbatim>\<open>str\<close> values with \<^verbatim>\<open>str.find\<close>, \<^verbatim>\<open>str.rfind\<close>, slicing and the
  \<^verbatim>\<open>re\<close> module. A text is a \<open>string\<close> here, one \<open>char\<close> per character of the
  Python text (every pattern of the scripts is ASCII, and every character class they use
  treats all other characters alike).
\<close>

fun strip_prefix :: "string \<Rightarrow> string \<Rightarrow> string option" where
  "strip_prefix [] s = Some s"
| "strip_prefix (c # cs) [] = None"
| "strip_prefix (c # cs) (d # ds) = (if c = d then strip_prefix cs ds else None)"

text \<open>\<^verbatim>\<open>s.find(sub)\<close>: the lowest index where \<open>sub\<close> starts in \<open>s\<close>, or \<open>-1\<close>.\<close>

fun find_from :: "nat \<Rightarrow> string \<Rightarrow> string \<Rightarrow> int" where
  "find_from i sub [] = (if sub = [] then int i else - 1)"
| "find_from i sub (c # cs) =
     (if strip_prefix sub (c # cs) \<noteq> None then int i else find_from (Suc i) sub cs)"

definition find :: "string \<Rightarrow> string \<Rightarrow> int" where
  "find s sub = find_from 0 sub s"

text \<open>\<^verbatim>\<open>s.rfind(sub)\<close>: the highest index where \<open>sub\<close> starts in \<open>s\<close>, or \<open>-1\<close>.\<close>

fun rfind_from :: "nat \<Rightarrow> string \<Rightarrow> string \<Rightarrow> int" where
  "rfind_from i sub [] = (if sub = [] then int i else - 1)"
| "rfind_from i sub (c # cs) =
     (let later = rfind_from (Suc i) sub cs
      in if later \<noteq> - 1 then later
         else if strip_prefix sub (c # cs) \<noteq> None then int i else - 1)"

definition rfind :: "string \<Rightarrow> string \<Rightarrow> int" where
  "rfind s sub = rfind_from 0 sub s"

text \<open>
  Slices \<^verbatim>\<open>s[a:]\<close>, \<^verbatim>\<open>s[:b]\<close> and \<^verbatim>\<open>s[a:b]\<close> with non-negative bounds (the only
  ones the scripts compute); a bound beyond the end of the text is clipped, as in Python.
\<close>

definition slice_from :: "string \<Rightarrow> int \<Rightarrow> string" where
  "slice_from s a = drop (nat a) s"

definition slice_to :: "string \<Rightarrow> int \<Rightarrow> string" where
  "slice_to s b = take (nat b) s"

definition slice :: "string \<Rightarrow> int \<Rightarrow> int \<Rightarrow> string" where
  "slice s a b = drop (nat a) (take (nat b) s)"

text \<open>\<^verbatim>\<open>str(n)\<close> of an integer, as an f-string prints it.\<close>

definition digit :: "nat \<Rightarrow> char" where
  "digit d = char_of (48 + d)"

function str_nat :: "nat \<Rightarrow> string" where
  "str_nat n = (if n < 10 then [digit n] else str_nat (n div 10) @ [digit (n mod 10)])"
  by pat_completeness auto
termination
  by (relation "measure id") auto

definition str_int :: "int \<Rightarrow> string" where
  "str_int i = (if i < 0 then CHR ''-'' # str_nat (nat (- i)) else str_nat (nat i))"

section \<open>The regular expressions of the scripts\<close>

text \<open>
  The fragment of Python's \<^verbatim>\<open>re\<close> syntax that the scripts use. A character class is one
  of: any character (\<^verbatim>\<open>.\<close> under \<^verbatim>\<open>re.DOTALL\<close>), a negated single character
  (\<^verbatim>\<open>[^{]\<close>), and the range \<^verbatim>\<open>[A-Z]\<close>.
\<close>

datatype cclass = AnyChar | Except char | Upper

fun cc_ok :: "cclass \<Rightarrow> char \<Rightarrow> bool" where
  "cc_ok AnyChar c = True"
| "cc_ok (Except x) c = (c \<noteq> x)"
| "cc_ok Upper c = (65 \<le> (of_char c :: nat) \<and> (of_char c :: nat) \<le> 90)"

datatype regex =
    Str string              \<comment> \<open>literal text\<close>
  | One cclass              \<comment> \<open>one character of a class\<close>
  | StarG cclass            \<comment> \<open>\<^verbatim>\<open>c*\<close>, greedy\<close>
  | StarL cclass            \<comment> \<open>\<^verbatim>\<open>c*?\<close>, lazy\<close>
  | Seq regex regex
  | Alt regex regex         \<comment> \<open>\<^verbatim>\<open>a|b\<close>\<close>
  | OptG regex              \<comment> \<open>\<^verbatim>\<open>(?:a)?\<close>, greedy\<close>
  | Grp nat regex           \<comment> \<open>capturing group number \<open>n\<close>\<close>
  | Look regex              \<comment> \<open>\<^verbatim>\<open>(?=a)\<close>\<close>
  | Plus regex              \<comment> \<open>\<^verbatim>\<open>(?:a)+\<close>, greedy\<close>

text \<open>
  A matching state is the text still to be read and the groups captured so far. The matcher
  returns every way the expression can match at the start of the text, in the order in which
  Python's backtracking matcher tries them; the head of the list is the match Python reports.
\<close>

type_synonym groups = "nat \<Rightarrow> string option"
type_synonym mstate = "string \<times> groups"

fun star_greedy :: "cclass \<Rightarrow> string \<Rightarrow> string list" where
  "star_greedy cc [] = [[]]"
| "star_greedy cc (c # cs) = (if cc_ok cc c then star_greedy cc cs @ [c # cs] else [c # cs])"

fun star_lazy :: "cclass \<Rightarrow> string \<Rightarrow> string list" where
  "star_lazy cc [] = [[]]"
| "star_lazy cc (c # cs) = (if cc_ok cc c then (c # cs) # star_lazy cc cs else [c # cs])"

text \<open>
  Greedy repetition of a matcher \<open>f\<close>, at most \<open>n\<close> more rounds. A round that reads nothing
  ends the loop, so the length of the text is always enough rounds.
\<close>

primrec rep :: "nat \<Rightarrow> (mstate \<Rightarrow> mstate list) \<Rightarrow> mstate \<Rightarrow> mstate list" where
  "rep 0 f st = [st]"
| "rep (Suc n) f st =
     concat (map (\<lambda>st'. if length (fst st') < length (fst st) then rep n f st' else [])
                 (f st)) @ [st]"

primrec ml :: "regex \<Rightarrow> mstate \<Rightarrow> mstate list" where
  "ml (Str l) st =
     (case strip_prefix l (fst st) of None \<Rightarrow> [] | Some r \<Rightarrow> [(r, snd st)])"
| "ml (One cc) st =
     (case fst st of [] \<Rightarrow> [] | c # cs \<Rightarrow> if cc_ok cc c then [(cs, snd st)] else [])"
| "ml (StarG cc) st = map (\<lambda>r. (r, snd st)) (star_greedy cc (fst st))"
| "ml (StarL cc) st = map (\<lambda>r. (r, snd st)) (star_lazy cc (fst st))"
| "ml (Seq a b) st = concat (map (ml b) (ml a st))"
| "ml (Alt a b) st = ml a st @ ml b st"
| "ml (OptG a) st = ml a st @ [st]"
| "ml (Grp n a) st =
     map (\<lambda>st'. (fst st',
                  (snd st')(n \<mapsto> take (length (fst st) - length (fst st')) (fst st))))
         (ml a st)"
| "ml (Look a) st = (case ml a st of [] \<Rightarrow> [] | st' # _ \<Rightarrow> [(fst st, snd st')])"
| "ml (Plus a) st = concat (map (\<lambda>st'. rep (length (fst st')) (ml a) st') (ml a st))"

text \<open>
  A match object: where the match starts and ends in the searched text, and its groups.
\<close>

record match =
  m_start :: nat
  m_end :: nat
  m_groups :: groups

definition no_groups :: groups where
  "no_groups = (\<lambda>n. None)"

text \<open>\<^verbatim>\<open>re.search(pattern, s)\<close>: the first position, from the left, where the pattern matches.\<close>

fun search_from :: "nat \<Rightarrow> regex \<Rightarrow> string \<Rightarrow> match option" where
  "search_from i r [] =
     (case ml r ([], no_groups) of
        [] \<Rightarrow> None
      | st' # _ \<Rightarrow> Some \<lparr>m_start = i, m_end = i, m_groups = snd st'\<rparr>)"
| "search_from i r (c # cs) =
     (case ml r (c # cs, no_groups) of
        [] \<Rightarrow> search_from (Suc i) r cs
      | st' # _ \<Rightarrow>
          Some \<lparr>m_start = i, m_end = i + (length (c # cs) - length (fst st')),
                m_groups = snd st'\<rparr>)"

definition search :: "regex \<Rightarrow> string \<Rightarrow> match option" where
  "search r s = search_from 0 r s"

text \<open>\<^verbatim>\<open>match.group(0)\<close> and \<^verbatim>\<open>match.group(n)\<close> (\<open>None\<close> for a group that took no part).\<close>

definition group0 :: "string \<Rightarrow> match \<Rightarrow> string" where
  "group0 s m = drop (m_start m) (take (m_end m) s)"

text \<open>
  \<^verbatim>\<open>re.sub(pattern, repl, s)\<close>: every match, from the left and without overlap, is replaced
  by what \<open>repl\<close> makes of its text and groups. (None of the scripts' substitution patterns
  can match the empty text; such a match would be replaced and the scan would move on by
  one character.)
\<close>

fun sub :: "regex \<Rightarrow> (string \<Rightarrow> groups \<Rightarrow> string) \<Rightarrow> string \<Rightarrow> string" where
  "sub r repl [] = (case ml r ([], no_groups) of [] \<Rightarrow> [] | st' # _ \<Rightarrow> repl [] (snd st'))"
| "sub r repl (c # cs) =
     (case ml r (c # cs, no_groups) of
        [] \<Rightarrow> c # sub r repl cs
      | st' # _ \<Rightarrow>
          if length (fst st') < length (c # cs)
          then repl (take (length (c # cs) - length (fst st')) (c # cs)) (snd st')
               @ sub r repl (fst st')
          else repl [] (snd st') @ c # sub r repl cs)"

section \<open>\<^verbatim>\<open>optimize_truckbay.py\<close>\<close>

text \<open>
  The scripts splice a component name into the text of a pattern. The names they use are
  identifiers, which a pattern reads as literal text; the model does the same.
\<close>

definition plain_name :: "string \<Rightarrow> bool" where
  "plain_name n =
     (n \<noteq> [] \<and>
      list_all (\<lambda>c. (let k = (of_char c :: nat)
                      in (65 \<le> k \<and> k \<le> 90) \<or> (97 \<le> k \<and> k \<le> 122) \<or> (48 \<le> k \<and> k \<le> 57) \<or> k = 95)) n)"

text \<open>The text of a group in a replacement (a group that took no part gives no text).\<close>

definition group_text :: "groups \<Rightarrow> nat \<Rightarrow> string" where
  "group_text g n = (case g n of None \<Rightarrow> [] | Some t \<Rightarrow> t)"

subsection \<open>\<^verbatim>\<open>add_throttle_to_component\<close>\<close>

text \<open>\<^verbatim>\<open>(const NAME[^{]*\{[^}]*?)(useFrame\(\([^)]*\) => \{)\<close>\<close>

definition throttle_pattern :: "string \<Rightarrow> regex" where
  "throttle_pattern component_name =
     Seq (Grp 1 (Seq (Str (''const '' @ component_name))
                (Seq (StarG (Except CHR ''{''))
                (Seq (Str ''{'')
                     (StarL (Except CHR ''}''))))))
         (Grp 2 (Seq (Str ''useFrame(('')
                (Seq (StarG (Except CHR '')''))
                     (Str '') => {''))))"

definition guard_text :: "int \<Rightarrow> string" where
  "guard_text throttle_level =
     ''\<newline>    if (!shouldRunThisFrame('' @ str_int throttle_level @ '')) return;''"

definition replacer :: "int \<Rightarrow> string \<Rightarrow> groups \<Rightarrow> string" where
  "replacer throttle_level whole g =
     (let before_useframe = group_text g 1;
          useframe_start = group_text g 2;
          new_useframe = useframe_start @ guard_text throttle_level
      in before_useframe @ new_useframe)"

definition add_throttle_to_component :: "string \<Rightarrow> string \<Rightarrow> int \<Rightarrow> string" where
  "add_throttle_to_component content component_name throttle_level =
     sub (throttle_pattern component_name) (replacer throttle_level) content"

subsection \<open>\<^verbatim>\<open>add_frame_throttling\<close>\<close>

definition particle_components :: "string list" where
  "particle_components = [''ExhaustSmoke'']"

definition light_components :: "string list" where
  "light_components = [''DOTMarkerLights'', ''DockStatusLight'', ''TruckAlignmentGuides'']"

definition slow_anim_components :: "string list" where
  "slow_anim_components =
     [''RollUpDoor'', ''DockShelter'', ''DockLeveler'', ''DockPlate'',
      ''WheelChock'', ''DockForklift'', ''DockSpotter'', ''WarehouseWorkerWithPalletJack'',
      ''WeightScale'', ''YardJockey'', ''GuardShack'', ''MudflapWithChains'',
      ''AirHoseStation'', ''ScaleTicketKiosk'', ''StretchWrapMachine'',
      ''PalletJackChargingStation'', ''OverheadCrane'', ''CardboardCompactor'',
      ''IntercomCallBox'', ''TruckWashStation'', ''TimeClockStation'']"

definition medium_anim_components :: "string list" where
  "medium_anim_components = [''ReeferUnit'']"

definition import_pattern :: regex where
  "import_pattern = Grp 1 (Str ''import { useFrame } from '@react-three/fiber';'')"

definition import_replacement :: "string \<Rightarrow> groups \<Rightarrow> string" where
  "import_replacement whole g =
     group_text g 1
       @ ''\<newline>import { shouldRunThisFrame, incrementGlobalFrame } from '../utils/frameThrottle';''"

text \<open>A \<^verbatim>\<open>for component in xs: content = add_throttle_to_component(content, component, n)\<close> loop.\<close>

definition throttle_all :: "string list \<Rightarrow> int \<Rightarrow> string \<Rightarrow> string" where
  "throttle_all components throttle_level content =
     foldl (\<lambda>content component. add_throttle_to_component content component throttle_level)
           content components"

definition add_frame_throttling :: "string \<Rightarrow> string" where
  "add_frame_throttling content =
     (let content = sub import_pattern import_replacement content;
          content = throttle_all particle_components 2 content;
          content = throttle_all light_components 4 content;
          content = throttle_all slow_anim_components 3 content;
          content = throttle_all medium_anim_components 2 content
      in content)"

subsection \<open>\<^verbatim>\<open>memoize_static_components\<close>\<close>

definition static_components :: "string list" where
  "static_components =
     [''TrafficCone'', ''SpeedBump'', ''ConcreteBollard'', ''FifthWheelCoupling'',
      ''GladHands'', ''ICCReflectiveTape'', ''SlidingTandemAxles'', ''ManifestHolder'',
      ''FuelTank'', ''AirTank'', ''LandingGear'', ''DEFTank'', ''CBAntennaComponent'',
      ''SunVisor'', ''TireInspectionArea'', ''FuelIsland'', ''NoIdlingSign'',
      ''PalletStaging'', ''HeadlightBeam'', ''LicensePlate'', ''GrainCoLogo'',
      ''FlourExpressLogo'', ''TPMSSensor'', ''TrailerLockRods'', ''TrailerSkirts'',
      ''DriverRestroom'', ''TrailerDropYard'', ''MaintenanceBay'', ''DockBumperWithWear'',
      ''DockFloorMarkings'', ''SafetyMirror'', ''FireExtinguisherStation'', ''HazmatPlacard'',
      ''DriverBreakRoom'', ''EmployeeParking'', ''PropaneTankCage'', ''DumpsterArea'']"

text \<open>\<^verbatim>\<open>(const NAME: React\.FC<[^>]*> = )\<close>\<close>

definition memo_pattern :: "string \<Rightarrow> regex" where
  "memo_pattern component =
     Grp 1 (Seq (Str (''const '' @ component @ '': React.FC<''))
           (Seq (StarG (Except CHR ''>''))
                (Str ''> = '')))"

text \<open>\<^verbatim>\<open>const NAME: React\.FC<[^>]*> = React\.memo\(\<close>\<close>

definition check_pattern :: "string \<Rightarrow> regex" where
  "check_pattern component =
     Seq (Str (''const '' @ component @ '': React.FC<''))
    (Seq (StarG (Except CHR ''>''))
         (Str ''> = React.memo(''))"

definition memo_replacement :: "string \<Rightarrow> groups \<Rightarrow> string" where
  "memo_replacement whole g = group_text g 1 @ ''React.memo(''"

text \<open>\<^verbatim>\<open>\n(const [A-Z]|export const TruckBay)\<close>\<close>

definition next_comp_pattern :: regex where
  "next_comp_pattern =
     Seq (Str ''\<newline>'')
         (Grp 1 (Alt (Seq (Str ''const '') (One Upper)) (Str ''export const TruckBay'')))"

text \<open>
  The body of the loop of \<^verbatim>\<open>memoize_static_components\<close> for one component; a
  \<^verbatim>\<open>continue\<close> hands the text on as it is at that point.
\<close>

definition memoize_component :: "string \<Rightarrow> string \<Rightarrow> string" where
  "memoize_component content component =
     (if search (check_pattern component) content \<noteq> None then content
      else
        let content = sub (memo_pattern component) memo_replacement content;
            comp_start = find content (''const '' @ component @ '':'')
        in if comp_start = - 1 then content
           else
             (case search next_comp_pattern (slice_from content (comp_start + 50)) of
                None \<Rightarrow> content
              | Some m \<Rightarrow>
                  let comp_end_search = comp_start + 50 + int (m_start m);
                      section = slice content comp_start comp_end_search;
                      last_close = rfind section ''};''
                  in if last_close \<noteq> - 1
                     then let actual_pos = comp_start + last_close + 2
                          in slice_to content actual_pos @ '')'' @ slice_from content actual_pos
                     else content))"

definition memoize_static_components :: "string \<Rightarrow> string" where
  "memoize_static_components content = foldl memoize_component content static_components"

section \<open>\<^verbatim>\<open>split_ambient_details.py\<close>\<close>

text \<open>
  The script reads \<^verbatim>\<open>source_content\<close> once, at module level; the functions below take it
  as an argument.
\<close>

text \<open>\<^verbatim>\<open>(import .*?;.*?\n)+\<close> under \<^verbatim>\<open>re.DOTALL\<close>\<close>

definition imports_pattern :: regex where
  "imports_pattern =
     Plus (Grp 1 (Seq (Str ''import '')
                 (Seq (StarL AnyChar)
                 (Seq (Str '';'')
                 (Seq (StarL AnyChar)
                      (Str ''\<newline>''))))))"

definition original_imports :: "string \<Rightarrow> string" where
  "original_imports source_content =
     (case search imports_pattern source_content of
        Some imports_match \<Rightarrow> group0 source_content imports_match
      | None \<Rightarrow> [])"

subsection \<open>\<^verbatim>\<open>extract_component\<close>\<close>

text \<open>
  The part the two patterns share:
  \<^verbatim>\<open>(//.*NAME.*?\n)?((?:export )?const NAME:.*?)\n(?=...)\<close>, with the lookahead as argument.
\<close>

definition component_pattern :: "string \<Rightarrow> regex \<Rightarrow> regex" where
  "component_pattern component_name ahead =
     Seq (OptG (Grp 1 (Seq (Str ''//'')
                      (Seq (StarG AnyChar)
                      (Seq (Str component_name)
                      (Seq (StarL AnyChar)
                           (Str ''\<newline>'')))))))
    (Seq (Grp 2 (Seq (OptG (Str ''export ''))
                (Seq (Str (''const '' @ component_name @ '':''))
                     (StarL AnyChar))))
    (Seq (Str ''\<newline>'')
         (Look ahead)))"

text \<open>\<^verbatim>\<open>\n(?:export )?(?:const|//|export default)\<close> and \<^verbatim>\<open>\};\n\<close>\<close>

definition ahead_next :: regex where
  "ahead_next =
     Seq (Str ''\<newline>'')
    (Seq (OptG (Str ''export ''))
         (Alt (Str ''const'') (Alt (Str ''//'') (Str ''export default''))))"

definition ahead_close :: regex where
  "ahead_close = Str ''};\<newline>''"

definition patterns :: "string \<Rightarrow> regex list" where
  "patterns component_name =
     [component_pattern component_name ahead_next,
      component_pattern component_name ahead_close]"

text \<open>The loop over the patterns: the first one that matches decides.\<close>

fun extract_with :: "regex list \<Rightarrow> string \<Rightarrow> string option" where
  "extract_with [] source_content = None"
| "extract_with (pattern # rest) source_content =
     (case search pattern source_content of
        Some m \<Rightarrow>
          (let comment = group_text (m_groups m) 1;
               code = group_text (m_groups m) 2
           in Some (comment @ code @ ''\<newline>};\<newline>''))
      | None \<Rightarrow> extract_with rest source_content)"

definition extract_component :: "string \<Rightarrow> string \<Rightarrow> string option" where
  "extract_component source_content component_name =
     extract_with (patterns component_name) source_content"

subsection \<open>\<^verbatim>\<open>create_category_file\<close>\<close>

text \<open>
  What a call does to the outside: the value it returns, the file it writes (path and
  content) if it writes one, and the lines it prints, in order.
\<close>

record outcome =
  returned :: bool
  written :: "(string \<times> string) option"
  printed :: "string list"

text \<open>The two lines the function prints.\<close>

definition warning_line :: "string \<Rightarrow> string" where
  "warning_line component_name =
     ''Warning: Could not extract component '' @ [CHR 0x27] @ component_name @ [CHR 0x27]"

definition created_line :: "string \<Rightarrow> nat \<Rightarrow> nat \<Rightarrow> string" where
  "created_line filename extracted_count n_components =
     ''Created '' @ filename @ '' with '' @ str_int (int extracted_count)
       @ ''/'' @ str_int (int n_components) @ '' components''"

text \<open>
  The loop over the components, on the content and the count built so far, and the lines
  printed so far. A result of \<^verbatim>\<open>extract_component\<close> counts when it is truthy: neither
  \<^verbatim>\<open>None\<close> nor the empty text.
\<close>

fun extract_all :: "string \<Rightarrow> string list \<Rightarrow> string \<times> nat \<times> string list \<Rightarrow> string \<times> nat \<times> string list" where
  "extract_all source_content [] acc = acc"
| "extract_all source_content (component_name # rest) (content, extracted_count, out) =
     (case extract_component source_content component_name of
        Some component_code \<Rightarrow>
          if component_code \<noteq> []
          then extract_all source_content rest
                 (content @ component_code @ ''\<newline>'', extracted_count + 1, out)
          else extract_all source_content rest
                 (content, extracted_count, out @ [warning_line component_name])
      | None \<Rightarrow>
          extract_all source_content rest
            (content, extracted_count, out @ [warning_line component_name]))"

definition create_category_file :: "string \<Rightarrow> string \<Rightarrow> string list \<Rightarrow> string \<Rightarrow> outcome" where
  "create_category_file source_content filename components description =
     (let output_path = ''src/components/ambient/'' @ filename;
          content = original_imports source_content @ ''\<newline>'';
          content = content @ ''// '' @ description @ ''\<newline>\<newline>'';
          (content, extracted_count, out) = extract_all source_content components (content, 0, [])
      in if extracted_count > 0
         then \<lparr>returned = True,
               written = Some (output_path, content),
               printed = out @ [created_line filename extracted_count (length components)]\<rparr>
         else \<lparr>returned = False, written = None, printed = out\<rparr>)"

section \<open>Notions used to state the properties\<close>

text \<open>\<^verbatim>\<open>sub in s\<close>, and: the text \<open>pat\<close> stands in \<open>s\<close> at offset \<open>k\<close>.\<close>

definition mentions :: "string \<Rightarrow> string \<Rightarrow> bool" where
  "mentions s pat = (find s pat \<noteq> - 1)"

definition occurs_at :: "string \<Rightarrow> string \<Rightarrow> nat \<Rightarrow> bool" where
  "occurs_at pat s k = (take (length pat) (drop k s) = pat)"

text \<open>
  A definition header as \<^verbatim>\<open>next_comp_pattern\<close> reads it: a line break followed by
  \<^verbatim>\<open>const\<close> and a capital letter, or by \<^verbatim>\<open>export const TruckBay\<close>.
\<close>

definition header_at :: "string \<Rightarrow> nat \<Rightarrow> bool" where
  "header_at s k =
     ((occurs_at ''\<newline>const '' s k \<and>
        (case drop (k + 7) s of [] \<Rightarrow> False | c # _ \<Rightarrow> cc_ok Upper c))
      \<or> occurs_at ''\<newline>export const TruckBay'' s k)"

text \<open>The text after the first step of the loop body: the memoization call put in.\<close>

definition opened :: "string \<Rightarrow> string \<Rightarrow> string" where
  "opened content component = sub (memo_pattern component) memo_replacement content"

subsection \<open>The throttle-class table of the specification\<close>

datatype throttle_class = particle | light | slowAnimation | mediumAnimation | smooth

text \<open>
  The table as the specification gives it:
  \<^verbatim>\<open>{particle:2, light:4, slowAnimation:3, mediumAnimation:2, smooth:1}\<close>.
\<close>

fun spec_divisor :: "throttle_class \<Rightarrow> int" where
  "spec_divisor particle = 2"
| "spec_divisor light = 4"
| "spec_divisor slowAnimation = 3"
| "spec_divisor mediumAnimation = 2"
| "spec_divisor smooth = 1"

text \<open>
  The components of each class, as \<^verbatim>\<open>add_frame_throttling\<close> lists them. The smooth
  class stands in a comment of the function only
  (\<^verbatim>\<open># smooth_components = ['RealisticTruck']\<close>).
\<close>

definition smooth_components :: "string list" where
  "smooth_components = [''RealisticTruck'']"

fun components_of :: "throttle_class \<Rightarrow> string list" where
  "components_of particle = particle_components"
| "components_of light = light_components"
| "components_of slowAnimation = slow_anim_components"
| "components_of mediumAnimation = medium_anim_components"
| "components_of smooth = smooth_components"

definition throttled_classes :: "throttle_class list" where
  "throttled_classes = [particle, light, slowAnimation, mediumAnimation]"

definition assignment :: "(string \<times> throttle_class) list" where
  "assignment = concat (map (\<lambda>cls. map (\<lambda>name. (name, cls)) (components_of cls)) throttled_classes)"

subsection \<open>The depth-aware boundary scan of the specification\<close>

text \<open>
  Modelled from the spec: the BoundaryLocator and the wrap operation built on it, which the
  source does not contain. From the opening delimiter of the body the scan keeps a nesting
  depth over braces and parentheses, string regions are opaque, and the body ends at the
  first point where the depth is back at zero; if it never is, the result is
  \<open>BoundaryMismatch\<close>.
\<close>

datatype wrap_error = NotFound | BoundaryMismatch

fun depth_scan :: "nat \<Rightarrow> char option \<Rightarrow> nat \<Rightarrow> string \<Rightarrow> nat option" where
  "depth_scan depth quote pos [] = None"
| "depth_scan depth (Some q) pos (c # cs) =
     depth_scan depth (if c = q then None else Some q) (Suc pos) cs"
| "depth_scan depth None pos (c # cs) =
     (if c = CHR 0x27 \<or> c = CHR 0x22 \<or> c = CHR 0x60 then depth_scan depth (Some c) (Suc pos) cs
      else if c = CHR ''{'' \<or> c = CHR ''('' then depth_scan (Suc depth) None (Suc pos) cs
      else if c = CHR ''}'' \<or> c = CHR '')''
        then (if depth \<le> 1 then Some (Suc pos) else depth_scan (depth - 1) None (Suc pos) cs)
      else depth_scan depth None (Suc pos) cs)"

text \<open>
  Modelled from the spec: the opening delimiter of the body is the first brace or
  parenthesis after the arrow of the definition.
\<close>

fun first_opening :: "nat \<Rightarrow> string \<Rightarrow> nat option" where
  "first_opening pos [] = None"
| "first_opening pos (c # cs) =
     (if c = CHR ''{'' \<or> c = CHR ''('' then Some pos else first_opening (Suc pos) cs)"

definition body_end :: "string \<Rightarrow> nat \<Rightarrow> nat option" where
  "body_end text rhs =
     (let arrow = find (drop rhs text) ''=>''
      in if arrow = - 1 then None
         else case first_opening (rhs + nat arrow + 2) (drop (rhs + nat arrow + 2) text) of
                None \<Rightarrow> None
              | Some body_start \<Rightarrow> depth_scan 0 None body_start (drop body_start text))"

text \<open>
  Modelled from the spec: \<^verbatim>\<open>wrap(name)\<close> of section 4.3. No change if the assignment
  already applies the memoization call; otherwise the call goes immediately before the
  right-hand side, and its one closing token at the end of the body as the scan finds it.
\<close>

definition wrap_spec :: "string \<Rightarrow> string \<Rightarrow> wrap_error + string" where
  "wrap_spec text name =
     (if search (check_pattern name) text \<noteq> None then Inr text
      else case search (memo_pattern name) text of
             None \<Rightarrow> Inl NotFound
           | Some m \<Rightarrow>
               (case body_end text (m_end m) of
                  None \<Rightarrow> Inl BoundaryMismatch
                | Some e \<Rightarrow>
                    Inr (take (m_end m) text @ ''React.memo('' @ drop (m_end m) (take e text)
                         @ '')'' @ drop e text)))"

section \<open>Example texts\<close>

text \<open>A component with one per-tick callback.\<close>

definition example_smoke :: string where
  "example_smoke =
     ''import { useFrame } from '@react-three/fiber';\<newline>\<newline>const ExhaustSmoke = () => {\<newline>  useFrame((state) => {\<newline>    puff();\<newline>  });\<newline>  return null;\<newline>};\<newline>''"

text \<open>A short component followed by two more definitions.\<close>

definition example_short :: string where
  "example_short =
     ''const AirTank: React.FC<P> = () => {};\<newline>const Foo: T = () => {\<newline>  return 1;\<newline>};\<newline>const Bar: T = 2;\<newline>''"

text \<open>A well-formed component, then one whose body never closes before the end of the text.\<close>

definition example_broken :: string where
  "example_broken =
     ''const SpeedBump: React.FC<P> = () => {\<newline>  return null;\<newline>};\<newline>\<newline>const TrafficCone: React.FC<P> = () => {\<newline>  return (\<newline>''"

text \<open>A component typed \<^verbatim>\<open>React.FC\<close> without type arguments.\<close>

definition example_untyped :: string where
  "example_untyped =
     ''const TrafficCone: React.FC = () => {\<newline>  return null;\<newline>};\<newline>const SpeedBump: React.FC = () => null;\<newline>''"

text \<open>A source for the split: imports, a commented component, and a last component.\<close>

definition example_source :: string where
  "example_source =
     ''import React from 'react';\<newline>\<newline>// SafetySign: wall sign\<newline>export const SafetySign: React.FC = () => {\<newline>  return null;\<newline>};\<newline>\<newline>export const Pigeon: React.FC = () => {\<newline>  return null;\<newline>};\<newline>''"

section \<open>Facts about the text primitives and the matcher\<close>

lemma strip_prefix_Some: "strip_prefix l s = Some r \<longleftrightarrow> s = l @ r"
  by (induction l s rule: strip_prefix.induct) auto

lemma strip_prefix_Some2: "Some r = strip_prefix l s \<longleftrightarrow> s = l @ r"
  using strip_prefix_Some[of l s r] by auto

lemma strip_prefix_None: "strip_prefix l s = None \<longleftrightarrow> \<not> prefix l s"
  by (induction l s rule: strip_prefix.induct) auto

lemma strip_prefix_append: "strip_prefix l (l @ r) = Some r"
  by (simp add: strip_prefix_Some)

lemma star_greedy_set:
  "set (star_greedy cc s) = {r. \<exists>w. s = w @ r \<and> list_all (cc_ok cc) w}"
proof (induction s)
  case Nil
  then show ?case by auto
next
  case (Cons c cs)
  show ?case
  proof (cases "cc_ok cc c")
    case True
    have "{r. \<exists>w. c # cs = w @ r \<and> list_all (cc_ok cc) w}
          = insert (c # cs) {r. \<exists>w. cs = w @ r \<and> list_all (cc_ok cc) w}"
      using True by (auto simp: Cons_eq_append_conv)
    then show ?thesis using True Cons by simp
  next
    case False
    have "{r. \<exists>w. c # cs = w @ r \<and> list_all (cc_ok cc) w} = {c # cs}"
      using False by (auto simp: Cons_eq_append_conv)
    then show ?thesis using False by simp
  qed
qed

lemma star_lazy_set: "set (star_lazy cc s) = set (star_greedy cc s)"
  by (induction s) auto

lemma star_greedy_nonempty: "star_greedy cc s \<noteq> []"
  by (induction s) auto

lemma in_ml_Str: "(s', g') \<in> set (ml (Str l) (s, g)) \<longleftrightarrow> s = l @ s' \<and> g' = g"
  by (cases "strip_prefix l s") (auto simp: strip_prefix_Some strip_prefix_Some2 strip_prefix_None prefix_def)

lemma in_ml_One:
  "(s', g') \<in> set (ml (One cc) (s, g)) \<longleftrightarrow> (\<exists>c. s = c # s' \<and> cc_ok cc c) \<and> g' = g"
  by (auto split: list.splits)

lemma in_ml_StarG:
  "(s', g') \<in> set (ml (StarG cc) (s, g)) \<longleftrightarrow> (\<exists>w. s = w @ s' \<and> list_all (cc_ok cc) w) \<and> g' = g"
  by (auto simp: star_greedy_set)

lemma in_ml_StarL:
  "(s', g') \<in> set (ml (StarL cc) (s, g)) \<longleftrightarrow> (\<exists>w. s = w @ s' \<and> list_all (cc_ok cc) w) \<and> g' = g"
  by (auto simp: star_lazy_set star_greedy_set)

lemma in_ml_Seq:
  "(s'', g'') \<in> set (ml (Seq a b) (s, g)) \<longleftrightarrow>
     (\<exists>s' g'. (s', g') \<in> set (ml a (s, g)) \<and> (s'', g'') \<in> set (ml b (s', g')))"
  by auto

lemma in_ml_Alt:
  "(s', g') \<in> set (ml (Alt a b) (s, g)) \<longleftrightarrow>
     (s', g') \<in> set (ml a (s, g)) \<or> (s', g') \<in> set (ml b (s, g))"
  by auto

lemma in_ml_OptG:
  "(s', g') \<in> set (ml (OptG a) (s, g)) \<longleftrightarrow> (s', g') \<in> set (ml a (s, g)) \<or> (s', g') = (s, g)"
  by auto

lemma in_ml_Grp:
  "(s', g') \<in> set (ml (Grp n a) (s, g)) \<longleftrightarrow>
     (\<exists>g0. (s', g0) \<in> set (ml a (s, g)) \<and> g' = g0(n \<mapsto> take (length s - length s') s))"
  by (force simp: image_iff)

lemma in_ml_Look:
  "(s', g') \<in> set (ml (Look a) (s, g)) \<longleftrightarrow> s' = s \<and> ml a (s, g) \<noteq> [] \<and> g' = snd (hd (ml a (s, g)))"
  by (cases "ml a (s, g)") auto

lemmas in_ml = in_ml_Str in_ml_One in_ml_StarG in_ml_StarL in_ml_Seq in_ml_Alt in_ml_OptG
  in_ml_Grp in_ml_Look

declare ml.simps [simp del]

text \<open>What a match leaves is a suffix of the text.\<close>

lemma rep_suffix:
  assumes f: "\<And>s g s' g'. (s', g') \<in> set (f (s, g)) \<Longrightarrow> suffix s' s"
  shows "(s', g') \<in> set (rep n f (s, g)) \<Longrightarrow> suffix s' s"
proof (induction n arbitrary: s g)
  case 0
  then show ?case by simp
next
  case (Suc n)
  from Suc.prems consider "(s', g') = (s, g)"
    | s1 g1 where "(s1, g1) \<in> set (f (s, g))" "(s', g') \<in> set (rep n f (s1, g1))"
    by (auto split: if_splits)
  then show ?case
  proof cases
    case 1
    then show ?thesis by simp
  next
    case 2
    from f[OF 2(1)] Suc.IH[OF 2(2)] show ?thesis
      by (rule suffix_order.trans[rotated])
  qed
qed

lemma ml_suffix: "(s', g') \<in> set (ml r (s, g)) \<Longrightarrow> suffix s' s"
proof (induction r arbitrary: s g s' g')
  case (Str l)
  then show ?case unfolding in_ml_Str by (simp add: suffix_def)
next
  case (One cc)
  then show ?case unfolding in_ml_One by (auto simp: suffix_def)
next
  case (StarG cc)
  then show ?case unfolding in_ml_StarG by (auto simp: suffix_def)
next
  case (StarL cc)
  then show ?case unfolding in_ml_StarL by (auto simp: suffix_def)
next
  case (Seq a b)
  from Seq.prems obtain s1 g1 where 1: "(s1, g1) \<in> set (ml a (s, g))"
    and 2: "(s', g') \<in> set (ml b (s1, g1))"
    unfolding in_ml_Seq by auto
  from Seq.IH(1)[OF 1] Seq.IH(2)[OF 2] show ?case
    by (rule suffix_order.trans[rotated])
next
  case (Alt a b)
  then show ?case unfolding in_ml_Alt by auto
next
  case (OptG a)
  then show ?case unfolding in_ml_OptG by auto
next
  case (Grp n a)
  then show ?case unfolding in_ml_Grp by auto
next
  case (Look a)
  then show ?case unfolding in_ml_Look by simp
next
  case (Plus a)
  from Plus.prems obtain s1 g1 where 1: "(s1, g1) \<in> set (ml a (s, g))"
    and 2: "(s', g') \<in> set (rep (length s1) (ml a) (s1, g1))"
    by (auto simp: ml.simps)
  have "suffix s' s1"
    using 2 by (rule rep_suffix[rotated]) (rule Plus.IH)
  with Plus.IH[OF 1] show ?case
    by (rule suffix_order.trans[rotated])
qed

lemma ml_length: "(s', g') \<in> set (ml r (s, g)) \<Longrightarrow> length s' \<le> length s"
  by (drule ml_suffix) (simp add: suffix_length_le)

lemma ml_split: "(s', g') \<in> set (ml r (s, g)) \<Longrightarrow> s = take (length s - length s') s @ s'"
  by (drule ml_suffix) (auto simp: suffix_def)

section \<open>Facts about \<^verbatim>\<open>re.search\<close> and \<^verbatim>\<open>re.sub\<close>\<close>

lemma search_from_None:
  "search_from i r s = None \<longleftrightarrow> (\<forall>k \<le> length s. ml r (drop k s, no_groups) = [])"
proof (induction s arbitrary: i)
  case Nil
  then show ?case by (auto split: list.splits)
next
  case (Cons c cs)
  have "(\<forall>k \<le> length (c # cs). ml r (drop k (c # cs), no_groups) = [])
        \<longleftrightarrow> ml r (c # cs, no_groups) = [] \<and> (\<forall>k \<le> length cs. ml r (drop k cs, no_groups) = [])"
    (is "?L \<longleftrightarrow> ?R")
  proof
    assume L: ?L
    have "ml r (drop 0 (c # cs), no_groups) = []" using L by blast
    moreover have "ml r (drop k cs, no_groups) = []" if "k \<le> length cs" for k
      using L[rule_format, of "Suc k"] that by simp
    ultimately show ?R by simp
  next
    assume R: ?R
    show ?L
    proof (intro allI impI)
      fix k assume "k \<le> length (c # cs)"
      then show "ml r (drop k (c # cs), no_groups) = []"
        using R by (cases k) auto
    qed
  qed
  then show ?case using Cons.IH[of "Suc i"] by (auto split: list.splits)
qed

lemma search_from_Some:
  assumes "search_from i r s = Some m"
  shows "\<exists>k s' g'. k \<le> length s \<and> (\<forall>j < k. ml r (drop j s, no_groups) = [])
           \<and> ml r (drop k s, no_groups) \<noteq> [] \<and> hd (ml r (drop k s, no_groups)) = (s', g')
           \<and> m_start m = i + k \<and> m_end m = i + k + (length s - k - length s') \<and> m_groups m = g'"
  using assms
proof (induction s arbitrary: i)
  case Nil
  then show ?case by (auto split: list.splits)
next
  case (Cons c cs)
  show ?case
  proof (cases "ml r (c # cs, no_groups)")
    case Nil
    with Cons.prems have "search_from (Suc i) r cs = Some m" by simp
    from Cons.IH[OF this] obtain k s' g' where k: "k \<le> length cs"
      "\<forall>j < k. ml r (drop j cs, no_groups) = []"
      "ml r (drop k cs, no_groups) \<noteq> []" "hd (ml r (drop k cs, no_groups)) = (s', g')"
      "m_start m = Suc i + k" "m_end m = Suc i + k + (length cs - k - length s')" "m_groups m = g'"
      by blast
    have "\<forall>j < Suc k. ml r (drop j (c # cs), no_groups) = []"
    proof (intro allI impI)
      fix j assume "j < Suc k"
      then show "ml r (drop j (c # cs), no_groups) = []"
        using Nil k(2) by (cases j) auto
    qed
    with k show ?thesis
      by (intro exI[of _ "Suc k"] exI[of _ s'] exI[of _ g']) simp
  next
    case (Cons st' rest)
    with Cons.prems show ?thesis
      by (intro exI[of _ 0] exI[of _ "fst st'"] exI[of _ "snd st'"]) auto
  qed
qed

lemma search_from_SomeE:
  assumes "search_from i r s = Some m"
  obtains k s' g' where "k \<le> length s" "\<forall>j < k. ml r (drop j s, no_groups) = []"
    "ml r (drop k s, no_groups) \<noteq> []" "hd (ml r (drop k s, no_groups)) = (s', g')"
    "m_start m = i + k" "m_end m = i + k + (length s - k - length s')" "m_groups m = g'"
proof -
  from search_from_Some[OF assms] obtain k s' g' where
    all: "k \<le> length s \<and> (\<forall>j < k. ml r (drop j s, no_groups) = [])
           \<and> ml r (drop k s, no_groups) \<noteq> [] \<and> hd (ml r (drop k s, no_groups)) = (s', g')
           \<and> m_start m = i + k \<and> m_end m = i + k + (length s - k - length s') \<and> m_groups m = g'"
    by (elim exE) (erule that)
  show thesis
    by (rule that[of k s' g']) (use all in blast)+
qed

lemma sub_no_match:
  "(\<forall>k \<le> length s. ml r (drop k s, no_groups) = []) \<Longrightarrow> sub r repl s = s"
proof (induction s)
  case Nil
  from Nil[rule_format, of 0] show ?case by simp
next
  case (Cons c cs)
  have 0: "ml r (c # cs, no_groups) = []" using Cons.prems[rule_format, of 0] by simp
  have "\<forall>k \<le> length cs. ml r (drop k cs, no_groups) = []"
    using Cons.prems[rule_format, of "Suc k" for k] by simp
  from Cons.IH[OF this] 0 show ?case by simp
qed

lemma sub_skip:
  assumes "k \<le> length s" "\<forall>j < k. ml r (drop j s, no_groups) = []"
  shows "sub r repl s = take k s @ sub r repl (drop k s)"
  using assms
proof (induction k arbitrary: s)
  case 0
  then show ?case by simp
next
  case (Suc k)
  then obtain c cs where s: "s = c # cs" by (cases s) auto
  have 0: "ml r (c # cs, no_groups) = []" using Suc.prems(2)[rule_format, of 0] s by simp
  have jj: "\<forall>j < k. ml r (drop j cs, no_groups) = []"
    using Suc.prems(2)[rule_format, of "Suc j" for j] s by simp
  have kk: "k \<le> length cs" using Suc.prems(1) s by simp
  have "sub r repl cs = take k cs @ sub r repl (drop k cs)" by (rule Suc.IH[OF kk jj])
  with 0 s show ?case by simp
qed

lemma sub_match_here:
  assumes "ml r (s, no_groups) = (s', g') # rest" "length s' < length s"
  shows "sub r repl s = repl (take (length s - length s') s) g' @ sub r repl s'"
  using assms by (cases s) auto


text \<open>The pattern of \<^verbatim>\<open>add_throttle_to_component\<close>, read as a set of texts.\<close>

lemma take_len_diff: "s = w @ s' \<Longrightarrow> take (length s - length s') s = w"
  by simp

lemma throttle_pattern_sound:
  assumes "(s', g') \<in> set (ml (throttle_pattern n) (s, g))"
  shows "\<exists>a b c. s = (''const '' @ n) @ a @ ''{'' @ b @ ''useFrame(('' @ c @ '') => {'' @ s'
           \<and> CHR ''{'' \<notin> set a \<and> CHR ''}'' \<notin> set b \<and> CHR '')'' \<notin> set c
           \<and> group_text g' 1 = (''const '' @ n) @ a @ ''{'' @ b
           \<and> group_text g' 2 = ''useFrame(('' @ c @ '') => {''"
proof -
  from assms obtain s1 g1 where
    1: "(s1, g1) \<in> set (ml (Grp 1 (Seq (Str (''const '' @ n))
                (Seq (StarG (Except CHR ''{''))
                (Seq (Str ''{'') (StarL (Except CHR ''}'')))))) (s, g))"
    and 2: "(s', g') \<in> set (ml (Grp 2 (Seq (Str ''useFrame(('')
                (Seq (StarG (Except CHR '')'')) (Str '') => {'')))) (s1, g1))"
    unfolding throttle_pattern_def in_ml_Seq by blast
  from 1 obtain a b g0 where s: "s = (''const '' @ n) @ a @ ''{'' @ b @ s1"
    and a: "list_all (cc_ok (Except CHR ''{'')) a" and b: "list_all (cc_ok (Except CHR ''}'')) b"
    and g1: "g1 = g0(1 \<mapsto> take (length s - length s1) s)"
    unfolding in_ml by (auto simp: append_assoc)
  from 2 obtain c g2 where s1: "s1 = ''useFrame(('' @ c @ '') => {'' @ s'"
    and c: "list_all (cc_ok (Except CHR '')'')) c"
    and g': "g' = g2(2 \<mapsto> take (length s1 - length s') s1)" and g2: "g2 = g1"
    unfolding in_ml by (auto simp: append_assoc)
  have t1: "take (length s - length s1) s = (''const '' @ n) @ a @ ''{'' @ b"
    by (rule take_len_diff) (simp add: s)
  have t2: "take (length s1 - length s') s1 = ''useFrame(('' @ c @ '') => {''"
    by (rule take_len_diff) (simp add: s1)
  have "group_text g' 1 = (''const '' @ n) @ a @ ''{'' @ b"
    unfolding g' g2 g1 t1 group_text_def by simp
  moreover have "group_text g' 2 = ''useFrame(('' @ c @ '') => {''"
    unfolding g' t2 group_text_def by simp
  moreover have "CHR ''{'' \<notin> set a" "CHR ''}'' \<notin> set b" "CHR '')'' \<notin> set c"
    using a b c by (auto simp: list_all_iff)
  ultimately show ?thesis using s s1 by auto
qed

lemma throttle_pattern_complete:
  assumes "s = (''const '' @ n) @ a @ ''{'' @ b @ ''useFrame(('' @ c @ '') => {'' @ s'"
    and "CHR ''{'' \<notin> set a" "CHR ''}'' \<notin> set b" "CHR '')'' \<notin> set c"
  shows "ml (throttle_pattern n) (s, g) \<noteq> []"
proof -
  let ?s1 = "''useFrame(('' @ c @ '') => {'' @ s'"
  have a: "list_all (cc_ok (Except CHR ''{'')) a" and b: "list_all (cc_ok (Except CHR ''}'')) b"
    and c: "list_all (cc_ok (Except CHR '')'')) c"
    using assms(2-4) by (auto simp: list_all_iff)
  have "(?s1, g) \<in> set (ml (Seq (Str (''const '' @ n))
                (Seq (StarG (Except CHR ''{''))
                (Seq (Str ''{'') (StarL (Except CHR ''}''))))) (s, g))"
    unfolding in_ml
    apply (rule exI[of _ "a @ ''{'' @ b @ ?s1"], rule exI[of _ g], rule conjI)
     apply (simp add: assms(1))
    apply (rule exI[of _ "''{'' @ b @ ?s1"], rule exI[of _ g], rule conjI)
    using a apply blast
    apply (rule exI[of _ "b @ ?s1"], rule exI[of _ g], rule conjI)
     apply simp
    using b apply blast
    done
  then have 1: "(?s1, g(1 \<mapsto> take (length s - length ?s1) s)) \<in> set (ml (Grp 1 (Seq (Str (''const '' @ n))
                (Seq (StarG (Except CHR ''{''))
                (Seq (Str ''{'') (StarL (Except CHR ''}'')))))) (s, g))"
    unfolding in_ml_Grp by blast
  have "(s', h) \<in> set (ml (Seq (Str ''useFrame(('')
                (Seq (StarG (Except CHR '')'')) (Str '') => {''))) (?s1, h))" for h
    unfolding in_ml
    apply (rule exI[of _ "c @ '') => {'' @ s'"], rule exI[of _ h], rule conjI)
     apply simp
    apply (rule exI[of _ "'') => {'' @ s'"], rule exI[of _ h], rule conjI)
    using c apply blast
    apply simp
    done
  then have 2: "(s', h(2 \<mapsto> take (length ?s1 - length s') ?s1)) \<in> set (ml (Grp 2 (Seq (Str ''useFrame(('')
                (Seq (StarG (Except CHR '')'')) (Str '') => {'')))) (?s1, h))" for h
    unfolding in_ml_Grp by blast
  from 1 2[of "g(1 \<mapsto> take (length s - length ?s1) s)"]
  have "\<exists>h. (s', h) \<in> set (ml (throttle_pattern n) (s, g))"
    unfolding throttle_pattern_def in_ml_Seq by blast
  then show ?thesis by auto
qed

section \<open>Facts about \<^verbatim>\<open>find\<close>, \<^verbatim>\<open>rfind\<close> and the throttling pass\<close>

lemma strip_prefix_occurs: "strip_prefix pat (drop k s) \<noteq> None \<longleftrightarrow> occurs_at pat s k"
proof -
  have "strip_prefix pat t \<noteq> None \<longleftrightarrow> take (length pat) t = pat" for t
    unfolding strip_prefix_None by (auto simp: prefix_def) (metis append_take_drop_id)
  then show ?thesis unfolding occurs_at_def by simp
qed

lemma occurs_at_iff: "occurs_at pat s k \<longleftrightarrow> (\<exists>r. drop k s = pat @ r)"
  unfolding occurs_at_def by (metis append_eq_conv_conj append_take_drop_id)

lemma all_le_Suc_drop:
  "(\<forall>k \<le> length (c # cs). P (drop k (c # cs))) \<longleftrightarrow> P (c # cs) \<and> (\<forall>k \<le> length cs. P (drop k cs))"
  (is "?L \<longleftrightarrow> ?R")
proof
  assume L: ?L
  have "P (drop 0 (c # cs))" using L by blast
  moreover have "P (drop k cs)" if "k \<le> length cs" for k
    using L[rule_format, of "Suc k"] that by simp
  ultimately show ?R by simp
next
  assume R: ?R
  show ?L
  proof (intro allI impI)
    fix k assume "k \<le> length (c # cs)"
    then show "P (drop k (c # cs))" using R by (cases k) auto
  qed
qed

lemma find_from_none:
  "find_from i pat s = - 1 \<longleftrightarrow> (\<forall>k \<le> length s. strip_prefix pat (drop k s) = None)"
proof (induction s arbitrary: i)
  case Nil
  then show ?case by (cases pat) auto
next
  case (Cons c cs)
  show ?case
    unfolding all_le_Suc_drop[where P = "\<lambda>t. strip_prefix pat t = None"]
    using Cons.IH[of "Suc i"] by auto
qed

lemma find_from_some:
  "find_from i pat s \<noteq> - 1 \<Longrightarrow>
     \<exists>k \<le> length s. find_from i pat s = int (i + k) \<and> strip_prefix pat (drop k s) \<noteq> None
        \<and> (\<forall>j < k. strip_prefix pat (drop j s) = None)"
proof (induction s arbitrary: i)
  case Nil
  then show ?case by (cases pat) auto
next
  case (Cons c cs)
  show ?case
  proof (cases "strip_prefix pat (c # cs) \<noteq> None")
    case True
    then show ?thesis by (intro exI[of _ 0]) simp
  next
    case False
    with Cons.prems have "find_from (Suc i) pat cs \<noteq> - 1" by simp
    from Cons.IH[OF this] obtain k where k: "k \<le> length cs"
      "find_from (Suc i) pat cs = int (Suc i + k)" "strip_prefix pat (drop k cs) \<noteq> None"
      "\<forall>j < k. strip_prefix pat (drop j cs) = None" by blast
    have "\<forall>j < Suc k. strip_prefix pat (drop j (c # cs)) = None"
    proof (intro allI impI)
      fix j assume "j < Suc k"
      then show "strip_prefix pat (drop j (c # cs)) = None"
        using False k(4) by (cases j) auto
    qed
    with k False show ?thesis by (intro exI[of _ "Suc k"]) simp
  qed
qed

lemma rfind_from_none:
  "rfind_from i pat s = - 1 \<longleftrightarrow> (\<forall>k \<le> length s. strip_prefix pat (drop k s) = None)"
proof (induction s arbitrary: i)
  case Nil
  then show ?case by (cases pat) auto
next
  case (Cons c cs)
  show ?case
    unfolding all_le_Suc_drop[where P = "\<lambda>t. strip_prefix pat t = None"]
    using Cons.IH[of "Suc i"] by (auto simp: Let_def)
qed

lemma rfind_from_some:
  "rfind_from i pat s \<noteq> - 1 \<Longrightarrow>
     \<exists>k \<le> length s. rfind_from i pat s = int (i + k) \<and> strip_prefix pat (drop k s) \<noteq> None
        \<and> (\<forall>j. k < j \<and> j \<le> length s \<longrightarrow> strip_prefix pat (drop j s) = None)"
proof (induction s arbitrary: i)
  case Nil
  then show ?case by (cases pat) auto
next
  case (Cons c cs)
  show ?case
  proof (cases "rfind_from (Suc i) pat cs \<noteq> - 1")
    case True
    from Cons.IH[OF this] obtain k where k: "k \<le> length cs"
      "rfind_from (Suc i) pat cs = int (Suc i + k)" "strip_prefix pat (drop k cs) \<noteq> None"
      "\<forall>j. k < j \<and> j \<le> length cs \<longrightarrow> strip_prefix pat (drop j cs) = None" by blast
    have "\<forall>j. Suc k < j \<and> j \<le> length (c # cs) \<longrightarrow> strip_prefix pat (drop j (c # cs)) = None"
    proof (intro allI impI)
      fix j assume "Suc k < j \<and> j \<le> length (c # cs)"
      then show "strip_prefix pat (drop j (c # cs)) = None"
        using k(4) by (cases j) auto
    qed
    with k True show ?thesis by (intro exI[of _ "Suc k"]) (simp add: Let_def)
  next
    case False
    then have none: "\<forall>k \<le> length cs. strip_prefix pat (drop k cs) = None"
      by (simp add: rfind_from_none)
    from False Cons.prems have here: "strip_prefix pat (c # cs) \<noteq> None"
      by (auto simp: Let_def split: if_splits)
    have "\<forall>j. 0 < j \<and> j \<le> length (c # cs) \<longrightarrow> strip_prefix pat (drop j (c # cs)) = None"
    proof (intro allI impI)
      fix j assume "0 < j \<and> j \<le> length (c # cs)"
      then show "strip_prefix pat (drop j (c # cs)) = None"
        using none by (cases j) auto
    qed
    with False here show ?thesis by (intro exI[of _ 0]) (simp add: Let_def)
  qed
qed

text \<open>No \<^verbatim>\<open>const NAME\<close> in the text: the pattern matches nowhere.\<close>

lemma throttle_no_header:
  assumes "\<not> mentions content (''const '' @ n)"
  shows "\<forall>k \<le> length content. ml (throttle_pattern n) (drop k content, no_groups) = []"
proof (intro allI impI)
  fix k assume k: "k \<le> length content"
  from assms have "find_from 0 (''const '' @ n) content = - 1"
    by (simp add: mentions_def find_def)
  with k have none: "strip_prefix (''const '' @ n) (drop k content) = None"
    unfolding find_from_none by blast
  show "ml (throttle_pattern n) (drop k content, no_groups) = []"
  proof (rule ccontr)
    assume "ml (throttle_pattern n) (drop k content, no_groups) \<noteq> []"
    then obtain s' g' where "(s', g') \<in> set (ml (throttle_pattern n) (drop k content, no_groups))"
      by (cases "ml (throttle_pattern n) (drop k content, no_groups)") auto
    from throttle_pattern_sound[OF this] obtain r
      where "drop k content = (''const '' @ n) @ r" by blast
    then have "strip_prefix (''const '' @ n) (drop k content) = Some r"
      by (simp only: strip_prefix_Some)
    with none show False by simp
  qed
qed

lemma add_throttle_absent:
  "\<not> mentions content (''const '' @ n) \<Longrightarrow> add_throttle_to_component content n l = content"
  unfolding add_throttle_to_component_def
  by (rule sub_no_match) (rule throttle_no_header)

text \<open>Every replacement of \<^verbatim>\<open>add_throttle_to_component\<close> makes the text longer.\<close>

lemma guard_text_length: "0 < length (guard_text l)"
  by (simp add: guard_text_def)

lemma throttle_replacer:
  assumes "(s', g') \<in> set (ml (throttle_pattern n) (s, g))"
  shows "replacer l w g' = take (length s - length s') s @ guard_text l"
    and "length s' < length s"
proof -
  from throttle_pattern_sound[OF assms] obtain a b c where
    s: "s = (''const '' @ n) @ a @ ''{'' @ b @ ''useFrame(('' @ c @ '') => {'' @ s'"
    and g1: "group_text g' 1 = (''const '' @ n) @ a @ ''{'' @ b"
    and g2: "group_text g' 2 = ''useFrame(('' @ c @ '') => {''" by blast
  have "take (length s - length s') s = ((''const '' @ n) @ a @ ''{'' @ b) @ ''useFrame(('' @ c @ '') => {''"
    by (rule take_len_diff) (simp add: s)
  then show "replacer l w g' = take (length s - length s') s @ guard_text l"
    unfolding replacer_def Let_def g1 g2 by simp
  show "length s' < length s" unfolding s by simp
qed

lemma throttle_sub_here:
  assumes "ml (throttle_pattern n) (s, no_groups) = (s', g') # rest"
  shows "sub (throttle_pattern n) (replacer l) s
         = take (length s - length s') s @ guard_text l @ sub (throttle_pattern n) (replacer l) s'"
    and "length s' < length s"
proof -
  have in1: "(s', g') \<in> set (ml (throttle_pattern n) (s, no_groups))" using assms by simp
  show len: "length s' < length s" by (rule throttle_replacer(2)[OF in1])
  show "sub (throttle_pattern n) (replacer l) s
         = take (length s - length s') s @ guard_text l @ sub (throttle_pattern n) (replacer l) s'"
    unfolding sub_match_here[OF assms len] throttle_replacer(1)[OF in1] by simp
qed

lemma throttle_sub_length:
  "length s \<le> length (sub (throttle_pattern n) (replacer l) s)"
proof (induction s rule: length_induct)
  case (1 s)
  show ?case
  proof (cases "ml (throttle_pattern n) (s, no_groups)")
    case Nil
    show ?thesis
    proof (cases s)
      case Nil
      then show ?thesis by simp
    next
      case (Cons c cs)
      with 1 have "length cs \<le> length (sub (throttle_pattern n) (replacer l) cs)" by simp
      with Nil Cons show ?thesis by simp
    qed
  next
    case (Cons st' rest)
    obtain s' g' where st': "st' = (s', g')" by (cases st')
    note h1 = throttle_sub_here(1)[OF Cons[unfolded st'], of l]
    note h2 = throttle_sub_here(2)[OF Cons[unfolded st']]
    from 1 h2 have "length s' \<le> length (sub (throttle_pattern n) (replacer l) s')" by simp
    then show ?thesis unfolding h1 using h2 by simp
  qed
qed

lemma throttle_sub_grows:
  assumes "k \<le> length s" "ml (throttle_pattern n) (drop k s, no_groups) \<noteq> []"
  shows "length s + length (guard_text l) \<le> length (sub (throttle_pattern n) (replacer l) s)"
  using assms
proof (induction s arbitrary: k rule: length_induct)
  case (1 s)
  show ?case
  proof (cases "ml (throttle_pattern n) (s, no_groups)")
    case Nil
    have k0: "k \<noteq> 0"
    proof
      assume "k = 0"
      with Nil 1(3) show False by simp
    qed
    then obtain c cs where s: "s = c # cs" using 1(2) by (cases s) auto
    from k0 obtain k' where k': "k = Suc k'" by (cases k) auto
    have "length cs + length (guard_text l) \<le> length (sub (throttle_pattern n) (replacer l) cs)"
      using 1(1)[rule_format, of cs k'] 1(2,3) s k' by simp
    with Nil s show ?thesis by simp
  next
    case (Cons st' rest)
    obtain s' g' where st': "st' = (s', g')" by (cases st')
    note h1 = throttle_sub_here(1)[OF Cons[unfolded st'], of l]
    note h2 = throttle_sub_here(2)[OF Cons[unfolded st']]
    have "length s' \<le> length (sub (throttle_pattern n) (replacer l) s')"
      by (rule throttle_sub_length)
    then show ?thesis unfolding h1 using h2 by simp
  qed
qed

lemma add_throttle_again:
  assumes "add_throttle_to_component c n l \<noteq> c"
  shows "length (add_throttle_to_component c n l) + length (guard_text l)
         \<le> length (add_throttle_to_component (add_throttle_to_component c n l) n l)"
proof -
  let ?P = "throttle_pattern n" and ?f = "sub (throttle_pattern n) (replacer l)"
  have "\<exists>k \<le> length c. ml ?P (drop k c, no_groups) \<noteq> []"
    using assms sub_no_match[of c ?P "replacer l"]
    unfolding add_throttle_to_component_def by blast
  then obtain k where k: "k \<le> length c" "ml ?P (drop k c, no_groups) \<noteq> []"
    and least: "\<forall>j < k. ml ?P (drop j c, no_groups) = []"
    using exists_least_iff[of "\<lambda>k. k \<le> length c \<and> ml ?P (drop k c, no_groups) \<noteq> []"]
    by (metis (no_types, lifting) less_imp_le_nat order.strict_trans2 order_less_imp_le)
  from k(2) obtain s' g' rest where hd: "ml ?P (drop k c, no_groups) = (s', g') # rest"
    by (cases "ml ?P (drop k c, no_groups)") auto
  then have in1: "(s', g') \<in> set (ml ?P (drop k c, no_groups))" by simp
  from throttle_pattern_sound[OF in1] obtain a b d where
    s: "drop k c = (''const '' @ n) @ a @ ''{'' @ b @ ''useFrame(('' @ d @ '') => {'' @ s'"
    and abd: "CHR ''{'' \<notin> set a" "CHR ''}'' \<notin> set b" "CHR '')'' \<notin> set d" by blast
  let ?w = "(''const '' @ n) @ a @ ''{'' @ b @ ''useFrame(('' @ d @ '') => {''"
  have w: "take (length (drop k c) - length s') (drop k c) = ?w"
    by (rule take_len_diff) (simp add: s)
  have fc: "?f c = take k c @ ?w @ guard_text l @ ?f s'"
    unfolding sub_skip[OF k(1) least, of "replacer l"] throttle_sub_here(1)[OF hd, of l] w by simp
  have "drop k (?f c) = ?w @ guard_text l @ ?f s'"
    unfolding fc using k(1) by simp
  then have "drop k (?f c) = (''const '' @ n) @ a @ ''{'' @ b @ ''useFrame(('' @ d @ '') => {'' @ (guard_text l @ ?f s')"
    by simp
  from throttle_pattern_complete[OF this abd]
  have m: "ml ?P (drop k (?f c), no_groups) \<noteq> []" .
  have "k \<le> length (?f c)" unfolding fc using k(1) by simp
  from throttle_sub_grows[OF this m, of l] show ?thesis
    unfolding add_throttle_to_component_def .
qed

lemma add_throttle_twice:
  "(add_throttle_to_component (add_throttle_to_component c n l) n l = add_throttle_to_component c n l)
   \<longleftrightarrow> (add_throttle_to_component c n l = c)"
  using add_throttle_again[of c n l] guard_text_length[of l]
  by (cases "add_throttle_to_component c n l = c") auto

section \<open>Facts about the extraction patterns\<close>

text \<open>The two lookaheads capture nothing, and say how the text goes on.\<close>

lemma ahead_next_sound:
  assumes "(x, h) \<in> set (ml ahead_next (s, g))"
  shows "h = g" and "prefix ''\<newline>'' s"
  using assms unfolding ahead_next_def in_ml by auto

lemma ahead_close_sound:
  assumes "(x, h) \<in> set (ml ahead_close (s, g))"
  shows "h = g" and "prefix ''};\<newline>'' s"
  using assms unfolding ahead_close_def in_ml by auto

lemma component_pattern_sound:
  assumes m: "(s', g') \<in> set (ml (component_pattern n ahead) (s, no_groups))"
    and keep: "\<And>x h t g. (x, h) \<in> set (ml ahead (t, g)) \<Longrightarrow> h = g"
  obtains comment code where
    "s = comment @ code @ ''\<newline>'' @ s'"
    "group_text g' 1 = comment" "group_text g' 2 = code"
    "comment = [] \<or> (\<exists>x y. comment = ''//'' @ x @ n @ y @ ''\<newline>'')"
    "\<exists>e rest. code = e @ (''const '' @ n @ '':'') @ rest \<and> (e = [] \<or> e = ''export '')"
    "ml ahead (s', g') \<noteq> []"
proof -
  let ?A = "Seq (Str ''//'') (Seq (StarG AnyChar) (Seq (Str n) (Seq (StarL AnyChar) (Str ''\<newline>''))))"
  let ?B = "Seq (OptG (Str ''export '')) (Seq (Str (''const '' @ n @ '':'')) (StarL AnyChar))"
  from m[unfolded component_pattern_def, THEN in_ml_Seq[THEN iffD1]]
  obtain s1 g1 where o: "(s1, g1) \<in> set (ml (OptG (Grp 1 ?A)) (s, no_groups))"
    and r: "(s', g') \<in> set (ml (Seq (Grp 2 ?B) (Seq (Str ''\<newline>'') (Look ahead))) (s1, g1))"
    by blast
  from r[THEN in_ml_Seq[THEN iffD1]]
  obtain s2 g2 where b: "(s2, g2) \<in> set (ml (Grp 2 ?B) (s1, g1))"
    and r2: "(s', g') \<in> set (ml (Seq (Str ''\<newline>'') (Look ahead)) (s2, g2))"
    by blast
  from r2[THEN in_ml_Seq[THEN iffD1]]
  obtain s3 g3 where n3: "(s3, g3) \<in> set (ml (Str ''\<newline>'') (s2, g2))"
    and l: "(s', g') \<in> set (ml (Look ahead) (s3, g3))"
    by blast
  from n3 have s2: "s2 = ''\<newline>'' @ s3" and g3: "g3 = g2"
    unfolding in_ml_Str by auto
  from l have s3: "s' = s3" and ne: "ml ahead (s3, g3) \<noteq> []"
    and g'h: "g' = snd (hd (ml ahead (s3, g3)))"
    unfolding in_ml_Look by auto
  from ne have "hd (ml ahead (s3, g3)) \<in> set (ml ahead (s3, g3))" by simp
  then have "(fst (hd (ml ahead (s3, g3))), g') \<in> set (ml ahead (s3, g3))"
    unfolding g'h by simp
  from keep[OF this] have g': "g' = g3" .
  \<comment> \<open>the definition\<close>
  from b[THEN in_ml_Grp[THEN iffD1]]
  obtain g0 where b0: "(s2, g0) \<in> set (ml ?B (s1, g1))"
    and g2: "g2 = g0(2 \<mapsto> take (length s1 - length s2) s1)"
    by blast
  from b0[THEN in_ml_Seq[THEN iffD1]]
  obtain s1' g1' where x1: "(s1', g1') \<in> set (ml (OptG (Str ''export '')) (s1, g1))"
    and x2: "(s2, g0) \<in> set (ml (Seq (Str (''const '' @ n @ '':'')) (StarL AnyChar)) (s1', g1'))"
    by blast
  from x1[THEN in_ml_OptG[THEN iffD1]]
  have "\<exists>e. s1 = e @ s1' \<and> (e = [] \<or> e = ''export '') \<and> g1' = g1"
  proof
    assume "(s1', g1') \<in> set (ml (Str ''export '') (s1, g1))"
    then have "s1 = ''export '' @ s1'" "g1' = g1" unfolding in_ml_Str by simp_all
    then show ?thesis by blast
  next
    assume "(s1', g1') = (s1, g1)"
    then show ?thesis by (intro exI[of _ "[]"]) simp
  qed
  then obtain e where e1: "s1 = e @ s1'" and e: "e = [] \<or> e = ''export ''" and g1': "g1' = g1"
    by blast
  from x2 obtain rest where r1: "s1' = (''const '' @ n @ '':'') @ rest @ s2" and g0': "g0 = g1'"
    unfolding in_ml by (auto simp: append_assoc)
  have s1: "s1 = e @ (''const '' @ n @ '':'') @ rest @ s2" unfolding e1 r1 ..
  have g0: "g0 = g1" unfolding g0' g1' ..
  let ?code = "e @ (''const '' @ n @ '':'') @ rest"
  have code: "take (length s1 - length s2) s1 = ?code"
    by (rule take_len_diff) (simp add: s1)
  \<comment> \<open>the comment\<close>
  from o[THEN in_ml_OptG[THEN iffD1]]
  have "\<exists>comment. s = comment @ s1 \<and> group_text g1 1 = comment
          \<and> (comment = [] \<or> (\<exists>x y. comment = ''//'' @ x @ n @ y @ ''\<newline>''))"
  proof
    assume "(s1, g1) \<in> set (ml (Grp 1 ?A) (s, no_groups))"
    from this[THEN in_ml_Grp[THEN iffD1]]
    obtain h where a0: "(s1, h) \<in> set (ml ?A (s, no_groups))"
      and g1: "g1 = h(1 \<mapsto> take (length s - length s1) s)"
      by blast
    from a0 obtain x y where s: "s = ''//'' @ x @ n @ y @ ''\<newline>'' @ s1"
      unfolding in_ml by auto
    have "take (length s - length s1) s = ''//'' @ x @ n @ y @ ''\<newline>''"
      by (rule take_len_diff) (simp add: s)
    then have "group_text g1 1 = ''//'' @ x @ n @ y @ ''\<newline>''"
      unfolding g1 group_text_def by simp
    with s show ?thesis by (intro exI[of _ "''//'' @ x @ n @ y @ ''\<newline>''"]) auto
  next
    assume "(s1, g1) = (s, no_groups)"
    then show ?thesis by (intro exI[of _ "[]"]) (simp add: group_text_def no_groups_def)
  qed
  then obtain comment where c: "s = comment @ s1" "group_text g1 1 = comment"
    "comment = [] \<or> (\<exists>x y. comment = ''//'' @ x @ n @ y @ ''\<newline>'')" by blast
  have gg: "g' = g1(2 \<mapsto> ?code)" unfolding g' g3 g2 g0 code ..
  have f1: "group_text g' 1 = comment" unfolding gg using c(2) by (simp add: group_text_def)
  have f2: "group_text g' 2 = ?code" unfolding gg by (simp add: group_text_def)
  have f0: "s = comment @ ?code @ ''\<newline>'' @ s'"
    unfolding c(1) s1 s2 s3 by simp
  have f5: "ml ahead (s', g') \<noteq> []" using ne unfolding s3 g' .
  have f4: "\<exists>e' rest'. ?code = e' @ (''const '' @ n @ '':'') @ rest' \<and> (e' = [] \<or> e' = ''export '')"
    using e by (intro exI[of _ e] exI[of _ rest]) simp
  show thesis by (rule that[OF f0 f1 f2 c(3) f4 f5])
qed

lemma extract_with_Some:
  assumes "extract_with ps src = Some t"
  shows "\<exists>p \<in> set ps. \<exists>m. search p src = Some m \<and>
           t = group_text (m_groups m) 1 @ group_text (m_groups m) 2 @ ''\<newline>};\<newline>''"
  using assms
proof (induction ps)
  case Nil
  then show ?case by simp
next
  case (Cons p ps)
  show ?case
  proof (cases "search p src")
    case None
    with Cons.prems have "extract_with ps src = Some t" by simp
    from Cons.IH[OF this] show ?thesis by auto
  next
    case (Some m)
    with Cons.prems
    have "t = group_text (m_groups m) 1 @ group_text (m_groups m) 2 @ ''\<newline>};\<newline>''"
      by (simp add: Let_def)
    with Some show ?thesis by (intro bexI[of _ p] exI[of _ m]) simp_all
  qed
qed

lemma extract_component_sound:
  assumes "extract_component src n = Some t"
  shows "\<exists>pre comment code post.
           src = pre @ comment @ code @ ''\<newline>'' @ post
         \<and> t = comment @ code @ ''\<newline>};\<newline>''
         \<and> (comment = [] \<or> (\<exists>x y. comment = ''//'' @ x @ n @ y @ ''\<newline>''))
         \<and> (\<exists>e rest. code = e @ (''const '' @ n @ '':'') @ rest \<and> (e = [] \<or> e = ''export ''))
         \<and> (prefix ''\<newline>'' post \<or> prefix ''};\<newline>'' post)"
proof -
  from extract_with_Some[OF assms[unfolded extract_component_def]]
  obtain p m where p: "p \<in> set (patterns n)" and m: "search p src = Some m"
    and t: "t = group_text (m_groups m) 1 @ group_text (m_groups m) 2 @ ''\<newline>};\<newline>''"
    by blast
  from p obtain ahead where pa: "p = component_pattern n ahead"
    and keep: "\<And>x h t g. (x, h) \<in> set (ml ahead (t, g)) \<Longrightarrow> h = g"
    and ahead: "\<And>t g. ml ahead (t, g) \<noteq> [] \<Longrightarrow> prefix ''\<newline>'' t \<or> prefix ''};\<newline>'' t"
  proof -
    from p consider "p = component_pattern n ahead_next" | "p = component_pattern n ahead_close"
      by (auto simp: patterns_def)
    then show thesis
    proof cases
      case 1
      show ?thesis
      proof (rule that[OF 1])
        show "\<And>x h t g. (x, h) \<in> set (ml ahead_next (t, g)) \<Longrightarrow> h = g"
          by (rule ahead_next_sound(1))
        show "prefix ''\<newline>'' t \<or> prefix ''};\<newline>'' t" if "ml ahead_next (t, g) \<noteq> []" for t g
        proof -
          from that obtain x h where "(x, h) \<in> set (ml ahead_next (t, g))"
            by (cases "ml ahead_next (t, g)") auto
          then have "prefix ''\<newline>'' t" by (rule ahead_next_sound(2))
          then show ?thesis ..
        qed
      qed
    next
      case 2
      show ?thesis
      proof (rule that[OF 2])
        show "\<And>x h t g. (x, h) \<in> set (ml ahead_close (t, g)) \<Longrightarrow> h = g"
          by (rule ahead_close_sound(1))
        show "prefix ''\<newline>'' t \<or> prefix ''};\<newline>'' t" if "ml ahead_close (t, g) \<noteq> []" for t g
        proof -
          from that obtain x h where "(x, h) \<in> set (ml ahead_close (t, g))"
            by (cases "ml ahead_close (t, g)") auto
          then have "prefix ''};\<newline>'' t" by (rule ahead_close_sound(2))
          then show ?thesis ..
        qed
      qed
    qed
  qed
  from m[unfolded search_def]
  obtain k s' g' where k: "k \<le> length src" and ne: "ml p (drop k src, no_groups) \<noteq> []"
    and hd: "hd (ml p (drop k src, no_groups)) = (s', g')" and g: "m_groups m = g'"
    by (rule search_from_SomeE)
  have "hd (ml p (drop k src, no_groups)) \<in> set (ml p (drop k src, no_groups))"
    using ne by simp
  then have "(s', g') \<in> set (ml p (drop k src, no_groups))"
    unfolding hd .
  then have "(s', g') \<in> set (ml (component_pattern n ahead) (drop k src, no_groups))"
    unfolding pa .
  from this keep
  obtain comment code where d: "drop k src = comment @ code @ ''\<newline>'' @ s'"
    and g1: "group_text g' 1 = comment" and g2: "group_text g' 2 = code"
    and c: "comment = [] \<or> (\<exists>x y. comment = ''//'' @ x @ n @ y @ ''\<newline>'')"
    and e: "\<exists>e rest. code = e @ (''const '' @ n @ '':'') @ rest \<and> (e = [] \<or> e = ''export '')"
    and a: "ml ahead (s', g') \<noteq> []"
    by (rule component_pattern_sound)
  have "src = take k src @ drop k src" by simp
  then have f0: "src = take k src @ comment @ code @ ''\<newline>'' @ s'"
    unfolding d .
  have f1: "t = comment @ code @ ''\<newline>};\<newline>''"
    unfolding t g g1 g2 by simp
  note f = conjI[OF f0 conjI[OF f1 conjI[OF c conjI[OF e ahead[OF a]]]]]
  show ?thesis
    by (rule exI[of _ "take k src"], rule exI[of _ comment], rule exI[of _ code],
        rule exI[of _ s'], rule f)
qed

lemma extract_component_soundE:
  assumes "extract_component src n = Some t"
  obtains pre comment code post where
    "src = pre @ comment @ code @ ''\<newline>'' @ post"
    "t = comment @ code @ ''\<newline>};\<newline>''"
    "comment = [] \<or> (\<exists>x y. comment = ''//'' @ x @ n @ y @ ''\<newline>'')"
    "\<exists>e rest. code = e @ (''const '' @ n @ '':'') @ rest \<and> (e = [] \<or> e = ''export '')"
    "prefix ''\<newline>'' post \<or> prefix ''};\<newline>'' post"
proof -
  from extract_component_sound[OF assms] obtain pre comment code post where
    all: "src = pre @ comment @ code @ ''\<newline>'' @ post
         \<and> t = comment @ code @ ''\<newline>};\<newline>''
         \<and> (comment = [] \<or> (\<exists>x y. comment = ''//'' @ x @ n @ y @ ''\<newline>''))
         \<and> (\<exists>e rest. code = e @ (''const '' @ n @ '':'') @ rest \<and> (e = [] \<or> e = ''export ''))
         \<and> (prefix ''\<newline>'' post \<or> prefix ''};\<newline>'' post)"
    by (elim exE) (erule that)
  show thesis
    by (rule that[OF all[THEN conjunct1] all[THEN conjunct2, THEN conjunct1]
          all[THEN conjunct2, THEN conjunct2, THEN conjunct1]
          all[THEN conjunct2, THEN conjunct2, THEN conjunct2, THEN conjunct1]
          all[THEN conjunct2, THEN conjunct2, THEN conjunct2, THEN conjunct2]])
qed

lemma extract_component_nonempty:
  assumes "extract_component src n = Some t"
  shows "t \<noteq> []"
proof -
  from assms obtain comment code where "t = comment @ code @ ''\<newline>};\<newline>''"
    by (rule extract_component_soundE)
  then show ?thesis by simp
qed

lemma extract_component_absent:
  assumes "\<not> mentions src (''const '' @ n @ '':'')"
  shows "extract_component src n = None"
proof (rule ccontr)
  assume "extract_component src n \<noteq> None"
  then obtain t where "extract_component src n = Some t" by auto
  then obtain pre comment code post where src: "src = pre @ comment @ code @ ''\<newline>'' @ post"
    and ex: "\<exists>e rest. code = e @ (''const '' @ n @ '':'') @ rest \<and> (e = [] \<or> e = ''export '')"
    by (rule extract_component_soundE)
  from ex obtain e rest where code: "code = e @ (''const '' @ n @ '':'') @ rest"
    by (elim exE conjE)
  define h where "h = ''const '' @ n @ '':''"
  have "src = (pre @ comment @ e) @ h @ (rest @ ''\<newline>'' @ post)"
    unfolding src code h_def by simp
  then have d: "drop (length (pre @ comment @ e)) src = h @ (rest @ ''\<newline>'' @ post)"
    and le: "length (pre @ comment @ e) \<le> length src"
    by simp_all
  have here: "strip_prefix h (drop (length (pre @ comment @ e)) src) \<noteq> None"
    unfolding d strip_prefix_append by simp
  from assms have "find_from 0 h src = - 1"
    by (simp add: mentions_def find_def h_def)
  then have "\<forall>k \<le> length src. strip_prefix h (drop k src) = None"
    unfolding find_from_none .
  from this[rule_format, OF le] here show False by simp
qed

section \<open>The guard injection\<close>

text \<open>
  C2, as the specification states it: applying \<^verbatim>\<open>add_throttle_to_component\<close> twice with
  the same arguments gives the same text as applying it once. The function looks for no
  guard that is already there. On \<open>example_smoke\<close> the first pass puts one guard at the
  start of the callback and the second pass puts a second one before it.
\<close>

theorem add_throttle_second_pass_differs:
  "add_throttle_to_component (add_throttle_to_component example_smoke ''ExhaustSmoke'' 2)
     ''ExhaustSmoke'' 2
   \<noteq> add_throttle_to_component example_smoke ''ExhaustSmoke'' 2"
  by code_simp

text \<open>
  C2, amended: a second pass gives the text of the first pass exactly when the first pass
  changed nothing (the pattern of the component's callback matches nowhere). Whenever the
  first pass changed the text, the second pass makes it longer again, by at least the
  length of one guard.
\<close>

theorem add_throttle_twice_iff:
  assumes "plain_name component_name"
  shows "(add_throttle_to_component
            (add_throttle_to_component content component_name throttle_level)
            component_name throttle_level
          = add_throttle_to_component content component_name throttle_level)
         = (add_throttle_to_component content component_name throttle_level = content)
       \<and> (add_throttle_to_component content component_name throttle_level \<noteq> content \<longrightarrow>
            length (add_throttle_to_component content component_name throttle_level)
              + length (guard_text throttle_level)
            \<le> length (add_throttle_to_component
                        (add_throttle_to_component content component_name throttle_level)
                        component_name throttle_level))"
  using add_throttle_twice[of content component_name throttle_level]
    add_throttle_again[of content component_name throttle_level]
  by simp

theorem add_throttle_twice_iff_witness:
  "plain_name ''ExhaustSmoke''
   \<and> add_throttle_to_component example_smoke ''ExhaustSmoke'' 2 \<noteq> example_smoke
   \<and> length (add_throttle_to_component example_smoke ''ExhaustSmoke'' 2) + length (guard_text 2)
       \<le> length (add_throttle_to_component
                   (add_throttle_to_component example_smoke ''ExhaustSmoke'' 2) ''ExhaustSmoke'' 2)"
proof -
  have h: "plain_name ''ExhaustSmoke''" by code_simp
  have c: "add_throttle_to_component example_smoke ''ExhaustSmoke'' 2 \<noteq> example_smoke"
    by code_simp
  from add_throttle_twice_iff[OF h, of example_smoke 2] h c show ?thesis by simp
qed

text \<open>
  C9, as the specification states it: called with a name that has no definition header in
  the text, the guard injection fails with \<open>NotFound\<close>. The function has no failure at
  all: it returns a text for every input. Here the text mentions no \<^verbatim>\<open>const Fan\<close>, and
  the call returns it as it is.
\<close>

theorem add_throttle_unknown_name_returns:
  "\<not> mentions ''const Other = 1;'' ''const Fan''
   \<and> add_throttle_to_component ''const Other = 1;'' ''Fan'' 4 = ''const Other = 1;''"
  by code_simp

text \<open>
  C9, amended: called with a name for which the text holds no \<^verbatim>\<open>const NAME\<close>, the guard
  injection returns the text unchanged, without any error.
\<close>

theorem add_throttle_unknown_name_unchanged:
  assumes "plain_name component_name"
    and "\<not> mentions content (''const '' @ component_name)"
  shows "add_throttle_to_component content component_name throttle_level = content"
  using assms(2) by (rule add_throttle_absent)

theorem add_throttle_unknown_name_unchanged_witness:
  "plain_name ''Fan'' \<and> \<not> mentions example_smoke (''const '' @ ''Fan'')
   \<and> add_throttle_to_component example_smoke ''Fan'' 4 = example_smoke"
proof -
  have h: "plain_name ''Fan''" by code_simp
  have a: "\<not> mentions example_smoke (''const '' @ ''Fan'')" by code_simp
  from add_throttle_unknown_name_unchanged[OF h a, of 4] h a show ?thesis by simp
qed

section \<open>The extraction\<close>

text \<open>
  C6: \<^verbatim>\<open>extract_component\<close> returns the exact piece of the source that holds the
  component, so that putting it back reproduces the source. On \<open>example_source\<close> the first
  pattern matches \<^verbatim>\<open>SafetySign\<close> up to the blank line before the next definition, its
  own closing \<^verbatim>\<open>};\<close> included, and the function appends a second one: the text it returns
  stands nowhere in the source.
\<close>

theorem extract_component_doubles_terminator:
  "extract_component example_source ''SafetySign''
     = Some ''// SafetySign: wall sign\<newline>export const SafetySign: React.FC = () => {\<newline>  return null;\<newline>};\<newline>};\<newline>''
   \<and> find example_source
         ''// SafetySign: wall sign\<newline>export const SafetySign: React.FC = () => {\<newline>  return null;\<newline>};\<newline>};\<newline>''
       = - 1"
  by code_simp

text \<open>
  C10: whenever \<^verbatim>\<open>extract_component\<close> returns a text, that text is the matched comment
  (or nothing), the matched definition, and the fixed ending \<^verbatim>\<open>\n};\n\<close>. Comment and
  definition stand in the source one after the other, followed by a line break; what
  follows that line break in the source is a blank line or a \<^verbatim>\<open>};\<close> line, and is not
  copied. The definition begins with \<^verbatim>\<open>const NAME:\<close>, after \<^verbatim>\<open>export\<close> or not.
\<close>

theorem extract_component_synthesized_terminator:
  assumes "plain_name component_name"
    and "extract_component source_content component_name = Some text"
  shows "\<exists>pre comment code post.
           source_content = pre @ comment @ code @ ''\<newline>'' @ post
         \<and> text = comment @ code @ ''\<newline>};\<newline>''
         \<and> (comment = [] \<or> (\<exists>x y. comment = ''//'' @ x @ component_name @ y @ ''\<newline>''))
         \<and> (\<exists>e rest. code = e @ (''const '' @ component_name @ '':'') @ rest
                \<and> (e = [] \<or> e = ''export ''))
         \<and> (prefix ''\<newline>'' post \<or> prefix ''};\<newline>'' post)"
  using assms(2) by (rule extract_component_sound)

theorem extract_component_synthesized_terminator_witness:
  "plain_name ''Pigeon''
   \<and> extract_component example_source ''Pigeon''
       = Some ''export const Pigeon: React.FC = () => {\<newline>  return null;\<newline>};\<newline>''
   \<and> (\<exists>pre comment code post.
           example_source = pre @ comment @ code @ ''\<newline>'' @ post
         \<and> ''export const Pigeon: React.FC = () => {\<newline>  return null;\<newline>};\<newline>''
             = comment @ code @ ''\<newline>};\<newline>''
         \<and> (comment = [] \<or> (\<exists>x y. comment = ''//'' @ x @ ''Pigeon'' @ y @ ''\<newline>''))
         \<and> (\<exists>e rest. code = e @ (''const '' @ ''Pigeon'' @ '':'') @ rest
                \<and> (e = [] \<or> e = ''export ''))
         \<and> (prefix ''\<newline>'' post \<or> prefix ''};\<newline>'' post))"
proof -
  have h: "plain_name ''Pigeon''" by code_simp
  have e: "extract_component example_source ''Pigeon''
       = Some ''export const Pigeon: React.FC = () => {\<newline>  return null;\<newline>};\<newline>''"
    by code_simp
  note t = extract_component_synthesized_terminator[OF h e]
  show ?thesis by (rule conjI[OF h conjI[OF e t]])
qed

end
